theory Spec2Isabelle
  imports Main "HOL-Library.Word" "HOL-Library.Multiset"
begin

section \<open>Request logger: data model\<close>

text \<open>
  The program keeps two module-level values: \<^verbatim>\<open>requests_log = deque(maxlen=100)\<close>
  and \<^verbatim>\<open>sse_clients = []\<close>, a list of \<^verbatim>\<open>asyncio.Queue\<close> objects. A queue object is
  shared between the list and the generator that created it, so queues live in a store
  indexed by an identity (a natural number) and the list holds identities.

  Python \<^verbatim>\<open>str\<close> values that only ever hold what the transport layer hands over are
  \<^typ>\<open>string\<close>; the decoded request body is a list of Unicode code points, since its
  decoding is the subject of a property; request bodies are lists of bytes.
\<close>

type_synonym byte = "8 word"
type_synonym unicode = "nat list"

datatype error
  = ValueError
  | PutError
  | UnicodeDecodeError nat nat

text \<open>
  What the handlers read from a Starlette \<^verbatim>\<open>Request\<close>: \<^verbatim>\<open>request.method\<close>,
  \<^verbatim>\<open>request.url.path\<close>, \<^verbatim>\<open>dict(request.query_params)\<close>, \<^verbatim>\<open>dict(request.headers)\<close>
  and \<^verbatim>\<open>request.client\<close> (\<open>None\<close> or a peer with a host).
\<close>

record request =
  req_method :: string
  req_url_path :: string
  req_query_params :: "(string \<times> string) list"
  req_headers :: "(string \<times> string) list"
  req_client :: "string option"

text \<open>The dictionary built by \<^verbatim>\<open>format_request\<close>, one field per key.\<close>

record event =
  timestamp :: string
  http_method :: string
  path :: string
  query_params :: "(string \<times> string) list"
  headers :: "(string \<times> string) list"
  body :: unicode
  client :: string

record server =
  requests_log :: "event list"
  sse_clients :: "nat list"
  queues :: "nat \<Rightarrow> string list"
  next_queue :: nat

definition init :: server where
  "init = \<lparr>requests_log = [], sse_clients = [], queues = (\<lambda>_. []), next_queue = 0\<rparr>"

section \<open>The bounded history\<close>

text \<open>
  \<^verbatim>\<open>deque(maxlen=100)\<close>: \<^verbatim>\<open>appendleft\<close> puts the element at the left end and, when the
  deque has grown beyond \<^verbatim>\<open>maxlen\<close>, pops one element from the right end.
  \<^verbatim>\<open>list(requests_log)\<close> reads the deque from left to right.
\<close>

definition maxlen :: nat where
  "maxlen = 100"

definition appendleft :: "'a \<Rightarrow> 'a list \<Rightarrow> 'a list" where
  "appendleft x d = (let d' = x # d in if length d' > maxlen then butlast d' else d')"

definition get_requests :: "server \<Rightarrow> event list" where
  "get_requests st = requests_log st"

text \<open>A sequence of appends to a deque, in the order given.\<close>

fun appends :: "'a list \<Rightarrow> 'a list \<Rightarrow> 'a list" where
  "appends [] d = d"
| "appends (x # xs) d = appends xs (appendleft x d)"

text \<open>The history after the events \<open>es\<close> have been appended in the order given.\<close>

definition log_events :: "event list \<Rightarrow> server \<Rightarrow> server" where
  "log_events es st = st\<lparr>requests_log := appends es (requests_log st)\<rparr>"

text \<open>A concrete event, told apart by its timestamp, for evaluating the model.\<close>

definition sample_event :: "string \<Rightarrow> event" where
  "sample_event ts =
     \<lparr>timestamp = ts, http_method = ''POST'', path = ''/hook'', query_params = [],
      headers = [], body = [], client = ''unknown''\<rparr>"

definition sample_request :: "string \<Rightarrow> request" where
  "sample_request m =
     \<lparr>req_method = m, req_url_path = ''/api/requests'', req_query_params = [],
      req_headers = [(''host'', ''localhost'')], req_client = None\<rparr>"

section \<open>The subscriber registry\<close>

text \<open>
  \<^verbatim>\<open>list.remove(x)\<close> deletes the first occurrence of \<open>x\<close> and raises \<^verbatim>\<open>ValueError\<close> when
  there is none.
\<close>

definition list_remove :: "'a \<Rightarrow> 'a list \<Rightarrow> error + 'a list" where
  "list_remove x xs = (if x \<in> set xs then Inr (remove1 x xs) else Inl ValueError)"

text \<open>
  \<^verbatim>\<open>await client_queue.put(message)\<close>. An \<^verbatim>\<open>asyncio.Queue()\<close> has no size limit, so the
  put appends to the queue. The handler guards the call with a bare \<^verbatim>\<open>except\<close>; which
  queues make the call raise is given by the predicate \<open>raises\<close>.
\<close>

definition queue_put :: "(nat \<Rightarrow> bool) \<Rightarrow> nat \<Rightarrow> string \<Rightarrow> server \<Rightarrow> (error + unit) \<times> server" where
  "queue_put raises q message st =
     (if raises q then (Inl PutError, st)
      else (Inr (), st\<lparr>queues := (queues st)(q := queues st q @ [message])\<rparr>))"

text \<open>
  The loop of \<^verbatim>\<open>notify_clients\<close> over the copy \<^verbatim>\<open>list(sse_clients)\<close>: a put that raises
  is answered by \<^verbatim>\<open>sse_clients.remove(client_queue)\<close>, whose own \<^verbatim>\<open>ValueError\<close> would
  leave the loop and the function.
\<close>

fun notify_loop :: "(nat \<Rightarrow> bool) \<Rightarrow> string \<Rightarrow> nat list \<Rightarrow> server \<Rightarrow> (error + unit) \<times> server" where
  "notify_loop raises message [] st = (Inr (), st)"
| "notify_loop raises message (q # qs) st =
     (case queue_put raises q message st of
        (Inr _, st1) \<Rightarrow> notify_loop raises message qs st1
      | (Inl _, st1) \<Rightarrow>
          (case list_remove q (sse_clients st1) of
             Inl e \<Rightarrow> (Inl e, st1)
           | Inr cs \<Rightarrow> notify_loop raises message qs (st1\<lparr>sse_clients := cs\<rparr>)))"

definition sse_message :: "(event \<Rightarrow> string) \<Rightarrow> event \<Rightarrow> string" where
  "sse_message json_dumps request_data = ''data: '' @ json_dumps request_data @ ''\<newline>\<newline>''"

definition notify_clients :: "(event \<Rightarrow> string) \<Rightarrow> (nat \<Rightarrow> bool) \<Rightarrow> event \<Rightarrow> server \<Rightarrow> (error + unit) \<times> server" where
  "notify_clients json_dumps raises request_data st =
     (let message = sse_message json_dumps request_data
      in notify_loop raises message (sse_clients st) st)"

text \<open>
  The two ends of \<^verbatim>\<open>event_generator\<close>: on entry a new queue is created and appended to
  \<^verbatim>\<open>sse_clients\<close>; the \<^verbatim>\<open>finally\<close> clause removes it with \<^verbatim>\<open>list.remove\<close>.
\<close>

definition subscribe :: "server \<Rightarrow> nat \<times> server" where
  "subscribe st =
     (let client_queue = next_queue st
      in (client_queue,
          st\<lparr>sse_clients := sse_clients st @ [client_queue],
             queues := (queues st)(client_queue := []),
             next_queue := Suc client_queue\<rparr>))"

definition unsubscribe :: "nat \<Rightarrow> server \<Rightarrow> (error + unit) \<times> server" where
  "unsubscribe client_queue st =
     (case list_remove client_queue (sse_clients st) of
        Inl e \<Rightarrow> (Inl e, st)
      | Inr cs \<Rightarrow> (Inr (), st\<lparr>sse_clients := cs\<rparr>))"

section \<open>Decoding the request body\<close>

text \<open>
  \<^verbatim>\<open>body.decode('utf-8', errors='replace')\<close> runs Python's built-in UTF-8 codec, which
  is not part of the repository. The model follows the codec of CPython: an inner
  decoder that, at the current position, either yields a code point and its length or
  reports a malformed span (an invalid start byte: one byte; an invalid continuation
  byte: the bytes before it; an unexpected end of data: all remaining bytes), and an
  outer loop that hands each malformed span to the error handler and resumes after it.
  The handler \<^verbatim>\<open>'strict'\<close> raises \<^verbatim>\<open>UnicodeDecodeError\<close> with the span; the handler
  \<^verbatim>\<open>'replace'\<close> emits U+FFFD.
\<close>

datatype errors = Strict | Replace

datatype outcome = Char nat nat | Bad nat

definition is_continuation_byte :: "nat \<Rightarrow> bool" where
  "is_continuation_byte ch = (0x80 \<le> ch \<and> ch < 0xC0)"

definition utf8_step :: "byte list \<Rightarrow> outcome" where
  "utf8_step s =
     (let ch = unat (s ! 0) in
      if ch < 0x80 then Char ch 1
      else if ch < 0xE0 then
        (if ch < 0xC2 then Bad 1
         else if length s < 2 then Bad (length s)
         else
           let ch2 = unat (s ! 1) in
           if \<not> is_continuation_byte ch2 then Bad 1
           else Char (ch * 64 + ch2 - (0xC0 * 64 + 0x80)) 2)
      else if ch < 0xF0 then
        (if length s < 3 then
           (if length s < 2 then Bad (length s)
            else
              let ch2 = unat (s ! 1) in
              if \<not> is_continuation_byte ch2 \<or> (if ch2 < 0xA0 then ch = 0xE0 else ch = 0xED)
              then Bad 1
              else Bad (length s))
         else
           let ch2 = unat (s ! 1); ch3 = unat (s ! 2) in
           if \<not> is_continuation_byte ch2 then Bad 1
           else if ch = 0xE0 \<and> ch2 < 0xA0 then Bad 1
           else if ch = 0xED \<and> 0xA0 \<le> ch2 then Bad 1
           else if \<not> is_continuation_byte ch3 then Bad 2
           else Char (ch * 4096 + ch2 * 64 + ch3 - (0xE0 * 4096 + 0x80 * 64 + 0x80)) 3)
      else if ch < 0xF5 then
        (if length s < 4 then
           (if length s < 2 then Bad (length s)
            else
              let ch2 = unat (s ! 1) in
              if \<not> is_continuation_byte ch2 \<or> (if ch2 < 0x90 then ch = 0xF0 else ch = 0xF4)
              then Bad 1
              else if length s < 3 then Bad (length s)
              else
                let ch3 = unat (s ! 2) in
                if \<not> is_continuation_byte ch3 then Bad 2
                else Bad (length s))
         else
           let ch2 = unat (s ! 1); ch3 = unat (s ! 2); ch4 = unat (s ! 3) in
           if \<not> is_continuation_byte ch2 then Bad 1
           else if ch = 0xF0 \<and> ch2 < 0x90 then Bad 1
           else if ch = 0xF4 \<and> 0x90 \<le> ch2 then Bad 1
           else if \<not> is_continuation_byte ch3 then Bad 2
           else if \<not> is_continuation_byte ch4 then Bad 3
           else Char (ch * 262144 + ch2 * 4096 + ch3 * 64 + ch4
                       - (0xF0 * 262144 + 0x80 * 4096 + 0x80 * 64 + 0x80)) 4)
      else Bad 1)"

definition emit :: "nat \<Rightarrow> error + unicode \<Rightarrow> error + unicode" where
  "emit c r = (case r of Inl e \<Rightarrow> Inl e | Inr t \<Rightarrow> Inr (c # t))"

lemma utf8_step_Char_pos: "utf8_step s = Char c n \<Longrightarrow> 0 < n"
  by (auto simp: utf8_step_def Let_def split: if_splits)

lemma utf8_step_Bad_pos: "s \<noteq> [] \<Longrightarrow> utf8_step s = Bad n \<Longrightarrow> 0 < n"
  by (auto simp: utf8_step_def Let_def split: if_splits)

lemma utf8_step_Char_shorter: "s \<noteq> [] \<Longrightarrow> utf8_step s = Char c n \<Longrightarrow> length s - n < length s"
  using utf8_step_Char_pos [of s c n] by (cases s) auto

lemma utf8_step_Bad_shorter: "s \<noteq> [] \<Longrightarrow> utf8_step s = Bad n \<Longrightarrow> length s - n < length s"
  using utf8_step_Bad_pos [of s n] by (cases s) auto

function utf8_from :: "errors \<Rightarrow> nat \<Rightarrow> byte list \<Rightarrow> error + unicode" where
  "utf8_from h i s =
     (if s = [] then Inr []
      else
        (case utf8_step s of
           Char c n \<Rightarrow> emit c (utf8_from h (i + n) (drop n s))
         | Bad n \<Rightarrow>
             (case h of
                Strict \<Rightarrow> Inl (UnicodeDecodeError i (i + n))
              | Replace \<Rightarrow> emit 0xFFFD (utf8_from h (i + n) (drop n s)))))"
  by pat_completeness auto
termination
  by (relation "measure (\<lambda>(h, i, s). length s)")
     (auto simp: utf8_step_Char_shorter utf8_step_Bad_shorter)

definition bytes_decode :: "errors \<Rightarrow> byte list \<Rightarrow> error + unicode" where
  "bytes_decode h s = utf8_from h 0 s"




section \<open>The handlers\<close>

text \<open>
  \<^verbatim>\<open>format_request\<close>: \<open>now\<close> is the value of \<^verbatim>\<open>datetime.now().isoformat()\<close> at the call.
\<close>

definition format_request :: "string \<Rightarrow> request \<Rightarrow> byte list \<Rightarrow> error + event" where
  "format_request now request bs =
     (case (if bs \<noteq> [] then bytes_decode Replace bs else Inr []) of
        Inl e \<Rightarrow> Inl e
      | Inr text \<Rightarrow>
          Inr \<lparr>timestamp = now,
               http_method = req_method request,
               path = req_url_path request,
               query_params = req_query_params request,
               headers = req_headers request,
               body = text,
               client = (case req_client request of Some host \<Rightarrow> host | None \<Rightarrow> ''unknown'')\<rparr>)"

text \<open>
  \<^verbatim>\<open>catch_all\<close>: \<open>p\<close> is the path parameter of the route \<^verbatim>\<open>/{path:path}\<close>, the request
  path without its leading slash; \<open>bs\<close> is the value of \<^verbatim>\<open>await request.body()\<close>. A JSON
  object in a response is a list of key-value pairs.
\<close>

type_synonym response = "(string \<times> string) list"

definition catch_all ::
  "(event \<Rightarrow> string) \<Rightarrow> (nat \<Rightarrow> bool) \<Rightarrow> string \<Rightarrow> request \<Rightarrow> string \<Rightarrow> byte list \<Rightarrow> server
     \<Rightarrow> (error + response) \<times> server" where
  "catch_all json_dumps raises now request p bs st =
     (if p \<in> set ['''', ''events'', ''api/requests'']
      then (Inr [(''message'', ''This is an internal endpoint'')], st)
      else
        (case format_request now request bs of
           Inl e \<Rightarrow> (Inl e, st)
         | Inr request_data \<Rightarrow>
             (let st1 = st\<lparr>requests_log := appendleft request_data (requests_log st)\<rparr>
              in case notify_clients json_dumps raises request_data st1 of
                   (Inl e, st2) \<Rightarrow> (Inl e, st2)
                 | (Inr _, st2) \<Rightarrow>
                     (Inr [(''status'', ''logged''),
                           (''message'', ''Request has been logged successfully''),
                           (''timestamp'', timestamp request_data)], st2))))"

section \<open>Runs of the server\<close>

text \<open>
  \<^verbatim>\<open>await client_queue.get()\<close> in the generator takes the oldest message of the queue;
  on an empty queue it waits, which leaves the store as it is.
\<close>

definition queue_get :: "nat \<Rightarrow> server \<Rightarrow> string option \<times> server" where
  "queue_get q st =
     (case queues st q of
        [] \<Rightarrow> (None, st)
      | message # rest \<Rightarrow> (Some message, st\<lparr>queues := (queues st)(q := rest)\<rparr>))"

text \<open>
  What can happen to the two module-level values: a viewer connects (the generator
  starts), a generator takes a message from its queue, a generator ends (its
  \<^verbatim>\<open>finally\<close> clause runs), a request reaches \<^verbatim>\<open>catch_all\<close>. The handlers are
  coroutines on one event loop, and a run is the sequence of these steps.
\<close>

datatype action
  = Connect
  | Deliver nat
  | Disconnect nat
  | Incoming string request string "byte list"

fun step :: "(event \<Rightarrow> string) \<Rightarrow> (nat \<Rightarrow> bool) \<Rightarrow> action \<Rightarrow> server \<Rightarrow> server" where
  "step json_dumps raises Connect st = snd (subscribe st)"
| "step json_dumps raises (Deliver q) st = snd (queue_get q st)"
| "step json_dumps raises (Disconnect q) st = snd (unsubscribe q st)"
| "step json_dumps raises (Incoming now request p bs) st =
     snd (catch_all json_dumps raises now request p bs st)"

fun run :: "(event \<Rightarrow> string) \<Rightarrow> (nat \<Rightarrow> bool) \<Rightarrow> action list \<Rightarrow> server \<Rightarrow> server" where
  "run json_dumps raises [] st = st"
| "run json_dumps raises (a # as) st = run json_dumps raises as (step json_dumps raises a st)"

text \<open>
  Every queue is created by one generator and appended once: the registry holds no
  queue twice, and only queues that have been created.
\<close>

definition registry_ok :: "server \<Rightarrow> bool" where
  "registry_ok st = (distinct (sse_clients st) \<and> list_all (\<lambda>q. q < next_queue st) (sse_clients st))"

section \<open>Properties of the bounded history\<close>

lemma appendleft_take: "length d \<le> maxlen \<Longrightarrow> appendleft x d = take maxlen (x # d)"
proof (cases "length d = maxlen")
  case True
  then have "appendleft x d = butlast (x # d)"
    by (simp add: appendleft_def)
  also have "\<dots> = take (length (x # d) - 1) (x # d)"
    by (rule butlast_conv_take)
  finally show ?thesis using True by simp
next
  case False
  assume "length d \<le> maxlen"
  with False have "length (x # d) \<le> maxlen" by simp
  then show ?thesis by (simp add: appendleft_def)
qed

lemma length_appendleft: "length d \<le> maxlen \<Longrightarrow> length (appendleft x d) \<le> maxlen"
  by (simp add: appendleft_take)

lemma appends_take:
  "length d \<le> maxlen \<Longrightarrow> appends xs d = take maxlen (rev xs @ d)"
proof (induction xs arbitrary: d)
  case Nil
  then show ?case by simp
next
  case (Cons x xs)
  have "appends (x # xs) d = take maxlen (rev xs @ take maxlen (x # d))"
    using Cons by (simp add: appendleft_take)
  also have "\<dots> = take maxlen (rev xs @ x # d)"
    by (simp add: min_def)
  finally show ?case by simp
qed

lemma length_appends: "length d \<le> maxlen \<Longrightarrow> length (appends xs d) \<le> maxlen"
  by (simp add: appends_take)

lemma get_requests_log_events:
  "get_requests (log_events es init) = take maxlen (rev es)"
  by (simp add: get_requests_def log_events_def init_def appends_take)

text \<open>
  Claim C1. After at most 100 events have been appended to the empty history, the
  result of \<^verbatim>\<open>GET /api/requests\<close> holds as many events as were appended and is the
  reverse of the insertion order; appending \<open>A\<close>, \<open>B\<close>, \<open>C\<close> gives \<open>[C, B, A]\<close>.
\<close>

theorem snapshot_reverse_of_insertion:
  "(length es \<le> 100 \<longrightarrow>
      get_requests (log_events es init) = rev es \<and>
      length (get_requests (log_events es init)) = length es) \<and>
   get_requests (log_events [A, B, C] init) = [C, B, A]"
  by (simp add: get_requests_log_events maxlen_def)

theorem snapshot_reverse_of_insertion_witness:
  "length [sample_event ''t1'', sample_event ''t2''] \<le> 100 \<and>
   get_requests (log_events [sample_event ''t1'', sample_event ''t2''] init)
     = [sample_event ''t2'', sample_event ''t1'']"
  using snapshot_reverse_of_insertion [of "[sample_event ''t1'', sample_event ''t2'']"]
  by simp

text \<open>
  Claim C2. After more than 100 appends the result of \<^verbatim>\<open>GET /api/requests\<close> holds
  exactly the 100 most recent events, newest first; the history never holds more than
  100 events; an append to a full history drops the oldest event; after \<open>E 1\<close>, ...,
  \<open>E 101\<close> the result is \<open>E 101\<close>, \<open>E 100\<close>, ..., \<open>E 2\<close>.
\<close>

theorem snapshot_most_recent_hundred:
  "(100 < length es \<longrightarrow>
      get_requests (log_events es init) = take 100 (rev es) \<and>
      length (get_requests (log_events es init)) = 100) \<and>
   length (requests_log (log_events es init)) \<le> 100 \<and>
   (length d = 100 \<longrightarrow> appendleft x d = x # butlast d) \<and>
   get_requests (log_events (map E [1..<102]) init) = map E (rev [2..<102])"
proof -
  have a: "100 < length es \<longrightarrow>
      get_requests (log_events es init) = take 100 (rev es) \<and>
      length (get_requests (log_events es init)) = 100"
    by (simp add: get_requests_log_events maxlen_def)
  have b: "length (requests_log (log_events es init)) \<le> 100"
    using get_requests_log_events [of es] by (simp add: get_requests_def maxlen_def)
  have c: "length d = 100 \<longrightarrow> appendleft x d = x # butlast d"
    by (simp add: appendleft_def maxlen_def)
  have "[1..<102] = 1 # [2..<102]"
    by (simp add: upt_conv_Cons)
  then have "rev (map E [1..<102]) = map E (rev [2..<102]) @ [E 1]"
    by (simp add: rev_map)
  then have d: "get_requests (log_events (map E [1..<102]) init) = map E (rev [2..<102])"
    by (simp add: get_requests_log_events maxlen_def)
  from a b c d show ?thesis by blast
qed

theorem snapshot_most_recent_hundred_witness:
  "100 < length (map sample_event (replicate 101 ''t'')) \<and>
   length (get_requests (log_events (map sample_event (replicate 101 ''t'')) init)) = 100 \<and>
   length (replicate 100 (0::nat)) = 100 \<and>
   appendleft 1 (replicate 100 (0::nat)) = 1 # butlast (replicate 100 0)"
  using snapshot_most_recent_hundred
    [of "map sample_event (replicate 101 ''t'')" "replicate 100 (0::nat)" 1]
  by simp

section \<open>Properties of the registry\<close>


lemma mset_Cons_subD:
  assumes "mset (q # qs) \<subseteq># mset xs"
  shows "q \<in> set xs" and "mset qs \<subseteq># mset (remove1 q xs)" and "mset qs \<subseteq># mset xs"
proof -
  have "q \<in># mset (q # qs)" by simp
  with assms have "q \<in># mset xs" by (rule mset_subset_eqD)
  then show "q \<in> set xs" by simp
  show "mset qs \<subseteq># mset (remove1 q xs)"
    using assms by (simp add: insert_subset_eq_iff)
  have "mset qs \<subseteq># mset (q # qs)" by simp
  then show "mset qs \<subseteq># mset xs" using assms by (rule subset_mset.order_trans)
qed

lemma notify_loop_returns:
  "mset qs \<subseteq># mset (sse_clients st) \<Longrightarrow> fst (notify_loop r m qs st) = Inr ()"
proof (induction qs arbitrary: st)
  case Nil
  then show ?case by simp
next
  case (Cons q qs)
  note sub = mset_Cons_subD [OF Cons.prems]
  show ?case
  proof (cases "r q")
    case True
    then show ?thesis using sub Cons.IH [of "st\<lparr>sse_clients := remove1 q (sse_clients st)\<rparr>"]
      by (simp add: queue_put_def list_remove_def)
  next
    case False
    then show ?thesis
      using sub Cons.IH [of "st\<lparr>queues := (queues st)(q := queues st q @ [m])\<rparr>"]
      by (simp add: queue_put_def)
  qed
qed


lemma notify_loop_clients:
  "mset qs \<subseteq># mset (sse_clients st) \<Longrightarrow>
   sse_clients (snd (notify_loop r m qs st)) = fold remove1 (filter r qs) (sse_clients st)"
proof (induction qs arbitrary: st)
  case Nil
  then show ?case by simp
next
  case (Cons q qs)
  note sub = mset_Cons_subD [OF Cons.prems]
  show ?case
  proof (cases "r q")
    case True
    then show ?thesis using sub Cons.IH [of "st\<lparr>sse_clients := remove1 q (sse_clients st)\<rparr>"]
      by (simp add: queue_put_def list_remove_def)
  next
    case False
    then show ?thesis
      using sub Cons.IH [of "st\<lparr>queues := (queues st)(q := queues st q @ [m])\<rparr>"]
      by (simp add: queue_put_def)
  qed
qed

lemma notify_loop_queues:
  "mset qs \<subseteq># mset (sse_clients st) \<Longrightarrow>
   queues (snd (notify_loop r m qs st)) q =
     (if r q then queues st q else queues st q @ replicate (count_list qs q) m)"
proof (induction qs arbitrary: st)
  case Nil
  then show ?case by simp
next
  case (Cons q' qs)
  note sub = mset_Cons_subD [OF Cons.prems]
  show ?case
  proof (cases "r q'")
    case True
    then show ?thesis using sub Cons.IH [of "st\<lparr>sse_clients := remove1 q' (sse_clients st)\<rparr>"]
      by (auto simp add: queue_put_def list_remove_def)
  next
    case False
    then show ?thesis
      using sub Cons.IH [of "st\<lparr>queues := (queues st)(q' := queues st q' @ [m])\<rparr>"]
      by (auto simp add: queue_put_def replicate_append_same)
  qed
qed

lemma notify_loop_frame:
  "requests_log (snd (notify_loop r m qs st)) = requests_log st \<and>
   next_queue (snd (notify_loop r m qs st)) = next_queue st"
proof (induction qs arbitrary: st)
  case Nil
  then show ?case by simp
next
  case (Cons q qs)
  show ?case
  proof (cases "r q")
    case True
    then show ?thesis using Cons.IH [of "st\<lparr>sse_clients := remove1 q (sse_clients st)\<rparr>"]
      by (simp add: queue_put_def list_remove_def)
  next
    case False
    then show ?thesis
      using Cons.IH [of "st\<lparr>queues := (queues st)(q := queues st q @ [m])\<rparr>"]
      by (simp add: queue_put_def)
  qed
qed

lemma fold_remove1_filter:
  "\<forall>y\<in>set ys. P y \<Longrightarrow> mset ys = mset (filter P xs) \<Longrightarrow>
   fold remove1 ys xs = filter (\<lambda>x. \<not> P x) xs"
proof (induction ys arbitrary: xs)
  case Nil
  then have "filter P xs = []" by simp
  then show ?case by (simp add: filter_empty_conv)
next
  case (Cons y ys)
  have "mset (filter P (remove1 y xs)) = mset (filter P xs) - {#y#}"
    by (simp add: filter_remove1)
  also have "\<dots> = mset ys"
    using Cons.prems(2) [symmetric] by simp
  finally have a: "mset ys = mset (filter P (remove1 y xs))" by simp
  have "y \<notin> set (filter (\<lambda>x. \<not> P x) xs)"
    using Cons.prems(1) by simp
  then have b: "filter (\<lambda>x. \<not> P x) (remove1 y xs) = filter (\<lambda>x. \<not> P x) xs"
    by (simp add: filter_remove1 remove1_idem)
  show ?case using Cons.IH [OF _ a] Cons.prems(1) b by simp
qed

lemma notify_loop_all_clients:
  "sse_clients (snd (notify_loop r m (sse_clients st) st)) = filter (\<lambda>q. \<not> r q) (sse_clients st)"
proof -
  have "sse_clients (snd (notify_loop r m (sse_clients st) st))
          = fold remove1 (filter r (sse_clients st)) (sse_clients st)"
    by (rule notify_loop_clients) simp
  also have "\<dots> = filter (\<lambda>q. \<not> r q) (sse_clients st)"
    by (rule fold_remove1_filter) simp_all
  finally show ?thesis .
qed




lemma notify_clients_returns: "fst (notify_clients jd r e st) = Inr ()"
  by (simp add: notify_clients_def notify_loop_returns)

lemma notify_clients_clients:
  "sse_clients (snd (notify_clients jd r e st)) = filter (\<lambda>q. \<not> r q) (sse_clients st)"
  by (simp add: notify_clients_def notify_loop_all_clients)

lemma notify_clients_queues:
  "queues (snd (notify_clients jd r e st)) q =
     (if r q then queues st q
      else queues st q @ replicate (count_list (sse_clients st) q) (sse_message jd e))"
  by (simp add: notify_clients_def notify_loop_queues)

lemma notify_clients_frame:
  "requests_log (snd (notify_clients jd r e st)) = requests_log st \<and>
   next_queue (snd (notify_clients jd r e st)) = next_queue st"
  by (simp add: notify_clients_def notify_loop_frame)

lemma count_list_distinct:
  "distinct xs \<Longrightarrow> count_list xs q = (if q \<in> set xs then 1 else 0)"
  by (induction xs) auto

lemma notify_clients_queues_ok:
  "registry_ok st \<Longrightarrow>
   queues (snd (notify_clients jd r e st)) q =
     (if q \<in> set (sse_clients st) \<and> \<not> r q then queues st q @ [sse_message jd e]
      else queues st q)"
  by (simp add: notify_clients_queues registry_ok_def count_list_distinct)

lemma registry_ok_init: "registry_ok init"
  by (simp add: registry_ok_def init_def)

lemma registry_ok_subscribe: "registry_ok st \<Longrightarrow> registry_ok (snd (subscribe st))"
  by (auto simp: registry_ok_def subscribe_def Let_def list_all_iff)

lemma registry_ok_unsubscribe: "registry_ok st \<Longrightarrow> registry_ok (snd (unsubscribe q st))"
  by (auto simp: registry_ok_def unsubscribe_def list_remove_def list_all_iff
      dest: notin_set_remove1)

lemma registry_ok_queue_get: "registry_ok st \<Longrightarrow> registry_ok (snd (queue_get q st))"
  by (auto simp: registry_ok_def queue_get_def split: list.splits)

lemma registry_ok_notify:
  "registry_ok st \<Longrightarrow> registry_ok (snd (notify_clients jd r e st))"
  by (simp add: registry_ok_def notify_clients_clients notify_clients_frame list_all_iff)

section \<open>The replace handler never raises\<close>

declare utf8_from.simps [simp del]

lemma utf8_from_Nil: "utf8_from h i [] = Inr []"
  by (subst utf8_from.simps) simp

lemma utf8_from_Char:
  "s \<noteq> [] \<Longrightarrow> utf8_step s = Char c n \<Longrightarrow>
   utf8_from h i s = emit c (utf8_from h (i + n) (drop n s))"
  by (subst utf8_from.simps) simp

lemma utf8_from_Bad_Replace:
  "s \<noteq> [] \<Longrightarrow> utf8_step s = Bad n \<Longrightarrow>
   utf8_from Replace i s = emit 0xFFFD (utf8_from Replace (i + n) (drop n s))"
  by (subst utf8_from.simps) simp


lemma utf8_from_Replace_returns: "h = Replace \<Longrightarrow> \<exists>t. utf8_from h i s = Inr t"
proof (induction h i s rule: utf8_from.induct)
  case (1 h i s)
  show ?case
  proof (cases "s = []")
    case True
    then show ?thesis by (simp add: utf8_from_Nil)
  next
    case False
    show ?thesis
    proof (cases "utf8_step s")
      case (Char c n)
      from "1.IH"(1) [OF False Char "1.prems"]
      obtain t where "utf8_from h (i + n) (drop n s) = Inr t" by blast
      then show ?thesis using False Char by (simp add: utf8_from_Char emit_def)
    next
      case (Bad n)
      from "1.IH"(2) [OF False Bad "1.prems"] "1.prems"
      obtain t where "utf8_from Replace (i + n) (drop n s) = Inr t" by blast
      then show ?thesis using False Bad "1.prems" by (simp add: utf8_from_Bad_Replace emit_def)
    qed
  qed
qed

lemma format_request_returns:
  "\<exists>t. format_request now req bs =
     Inr \<lparr>timestamp = now, http_method = req_method req, path = req_url_path req,
          query_params = req_query_params req, headers = req_headers req, body = t,
          client = (case req_client req of Some host \<Rightarrow> host | None \<Rightarrow> ''unknown'')\<rparr>"
proof (cases "bs = []")
  case True
  then show ?thesis by (simp add: format_request_def)
next
  case False
  obtain t where "bytes_decode Replace bs = Inr t"
    using utf8_from_Replace_returns [of Replace 0 bs] by (auto simp: bytes_decode_def)
  then show ?thesis using False by (simp add: format_request_def)
qed


section \<open>Properties of the handlers and of runs\<close>

lemma catch_all_reserved:
  "p \<in> set ['''', ''events'', ''api/requests''] \<Longrightarrow>
   catch_all jd r now req p bs st = (Inr [(''message'', ''This is an internal endpoint'')], st)"
  by (simp only: catch_all_def if_True)

lemma catch_all_logged:
  assumes "p \<notin> set ['''', ''events'', ''api/requests'']"
    and "format_request now req bs = Inr ev"
  shows "catch_all jd r now req p bs st =
     (Inr [(''status'', ''logged''),
           (''message'', ''Request has been logged successfully''),
           (''timestamp'', timestamp ev)],
      snd (notify_clients jd r ev (st\<lparr>requests_log := appendleft ev (requests_log st)\<rparr>)))"
proof -
  let ?st1 = "st\<lparr>requests_log := appendleft ev (requests_log st)\<rparr>"
  obtain x st2 where n: "notify_clients jd r ev ?st1 = (x, st2)"
    by (cases "notify_clients jd r ev ?st1")
  have "x = Inr ()"
    using notify_clients_returns [of jd r ev ?st1] n by simp
  with n assms show ?thesis
    by (simp add: catch_all_def Let_def)
qed

lemma hd_appendleft: "hd (appendleft x d) = x"
  by (cases d) (simp_all add: appendleft_def maxlen_def Let_def)

lemma registry_ok_log:
  "registry_ok (st\<lparr>requests_log := l\<rparr>) = registry_ok st"
  by (simp add: registry_ok_def)

lemma registry_ok_catch_all:
  "registry_ok st \<Longrightarrow> registry_ok (snd (catch_all jd r now req p bs st))"
proof (cases "p \<in> set ['''', ''events'', ''api/requests'']")
  case True
  assume "registry_ok st"
  then show ?thesis using catch_all_reserved [OF True] by simp
next
  case False
  assume ok: "registry_ok st"
  obtain ev where "format_request now req bs = Inr ev"
    using format_request_returns [of now req bs] by blast
  from catch_all_logged [OF False this] ok show ?thesis
    by (simp add: registry_ok_notify registry_ok_log)
qed

lemma registry_ok_step: "registry_ok st \<Longrightarrow> registry_ok (step jd r a st)"
  by (cases a)
     (simp_all add: registry_ok_subscribe registry_ok_queue_get registry_ok_unsubscribe
        registry_ok_catch_all)

lemma registry_ok_run: "registry_ok st \<Longrightarrow> registry_ok (run jd r acts st)"
  by (induction acts arbitrary: st) (simp_all add: registry_ok_step)

lemma registry_ok_reachable: "registry_ok (run jd r acts init)"
  by (simp add: registry_ok_run registry_ok_init)


text \<open>
  Claim C3. A publish while subscribers are registered appends one copy of the event's
  message to the queue of every registered subscriber, after the messages already there,
  and touches no other queue; a subscriber registered later does not receive it: after
  subscribe \<open>S1\<close>, publish \<open>E1\<close>, subscribe \<open>S2\<close>, publish \<open>E2\<close>, the queue of \<open>S1\<close>
  holds the messages of \<open>E1\<close>, \<open>E2\<close> and the queue of \<open>S2\<close> the message of \<open>E2\<close>.
\<close>

theorem publish_reaches_every_subscriber:
  "(let st = run jd r acts init;
        res = notify_clients jd (\<lambda>q. False) e st
    in fst res = Inr () \<and>
       sse_clients (snd res) = sse_clients st \<and>
       (\<forall>q. queues (snd res) q =
          (if q \<in> set (sse_clients st) then queues st q @ [sse_message jd e]
           else queues st q))) \<and>
   (let (s1, st1) = subscribe init;
        st2 = snd (notify_clients jd (\<lambda>q. False) e1 st1);
        (s2, st3) = subscribe st2;
        st4 = snd (notify_clients jd (\<lambda>q. False) e2 st3)
    in s1 \<noteq> s2 \<and>
       queues st4 s1 = [sse_message jd e1, sse_message jd e2] \<and>
       queues st4 s2 = [sse_message jd e2])"
proof -
  let ?st = "run jd r acts init"
  have ok: "registry_ok ?st" by (rule registry_ok_reachable)
  have a: "fst (notify_clients jd (\<lambda>q. False) e ?st) = Inr ()"
    by (rule notify_clients_returns)
  have b: "sse_clients (snd (notify_clients jd (\<lambda>q. False) e ?st)) = sse_clients ?st"
    by (simp add: notify_clients_clients)
  have c: "\<forall>q. queues (snd (notify_clients jd (\<lambda>q. False) e ?st)) q =
          (if q \<in> set (sse_clients ?st) then queues ?st q @ [sse_message jd e]
           else queues ?st q)"
    using ok by (simp add: notify_clients_queues_ok)
  have d: "(let (s1, st1) = subscribe init;
        st2 = snd (notify_clients jd (\<lambda>q. False) e1 st1);
        (s2, st3) = subscribe st2;
        st4 = snd (notify_clients jd (\<lambda>q. False) e2 st3)
    in s1 \<noteq> s2 \<and>
       queues st4 s1 = [sse_message jd e1, sse_message jd e2] \<and>
       queues st4 s2 = [sse_message jd e2])"
    by (simp add: subscribe_def init_def notify_clients_def queue_put_def Let_def)
  from a b c d show ?thesis by (simp add: Let_def)
qed


theorem publish_reaches_every_subscriber_witness:
  "0 \<in> set (sse_clients (run timestamp (\<lambda>q. False) [Connect] init)) \<and>
   queues (snd (notify_clients timestamp (\<lambda>q. False) (sample_event ''t1'')
                  (run timestamp (\<lambda>q. False) [Connect] init))) 0
     = [sse_message timestamp (sample_event ''t1'')]"
  using publish_reaches_every_subscriber
    [of timestamp "\<lambda>q. False" "[Connect]" "sample_event ''t1''"]
  by (simp add: Let_def subscribe_def init_def)

text \<open>
  Claim C4. When the put to a subscriber's queue raises, the publish still returns
  normally, that subscriber is removed from the registry by this one publish and its
  queue receives nothing from it nor from any later publish, while every other registered
  subscriber receives the message of each event published.
\<close>

theorem failing_subscriber_is_dropped:
  "(let st = run jd r0 acts init;
        res = notify_clients jd r e st;
        res2 = notify_clients jd r2 e2 (snd res)
    in fst res = Inr () \<and> fst res2 = Inr () \<and>
       sse_clients (snd res) = filter (\<lambda>q. \<not> r q) (sse_clients st) \<and>
       (\<forall>q. r q \<longrightarrow>
          q \<notin> set (sse_clients (snd res)) \<and>
          queues (snd res) q = queues st q \<and>
          queues (snd res2) q = queues st q) \<and>
       (\<forall>q \<in> set (sse_clients st). \<not> r q \<longrightarrow>
          q \<in> set (sse_clients (snd res)) \<and>
          queues (snd res) q = queues st q @ [sse_message jd e]) \<and>
       (\<forall>q \<in> set (sse_clients st). \<not> r q \<and> \<not> r2 q \<longrightarrow>
          queues (snd res2) q = queues st q @ [sse_message jd e, sse_message jd e2]))"
proof -
  let ?st = "run jd r0 acts init"
  let ?res = "notify_clients jd r e ?st"
  let ?res2 = "notify_clients jd r2 e2 (snd ?res)"
  have ok: "registry_ok ?st" by (rule registry_ok_reachable)
  then have ok2: "registry_ok (snd ?res)" by (rule registry_ok_notify)
  have cl: "sse_clients (snd ?res) = filter (\<lambda>q. \<not> r q) (sse_clients ?st)"
    by (rule notify_clients_clients)
  have q1: "\<And>q. queues (snd ?res) q =
      (if q \<in> set (sse_clients ?st) \<and> \<not> r q then queues ?st q @ [sse_message jd e]
       else queues ?st q)"
    using ok by (rule notify_clients_queues_ok)
  have q2: "\<And>q. queues (snd ?res2) q =
      (if q \<in> set (sse_clients (snd ?res)) \<and> \<not> r2 q
       then queues (snd ?res) q @ [sse_message jd e2]
       else queues (snd ?res) q)"
    using ok2 by (rule notify_clients_queues_ok)
  have a: "fst ?res = Inr ()" and b: "fst ?res2 = Inr ()"
    by (rule notify_clients_returns)+
  have c: "\<forall>q. r q \<longrightarrow>
          q \<notin> set (sse_clients (snd ?res)) \<and>
          queues (snd ?res) q = queues ?st q \<and>
          queues (snd ?res2) q = queues ?st q"
    by (simp add: q2 q1 cl)
  have d: "\<forall>q \<in> set (sse_clients ?st). \<not> r q \<longrightarrow>
          q \<in> set (sse_clients (snd ?res)) \<and>
          queues (snd ?res) q = queues ?st q @ [sse_message jd e]"
    by (simp add: q1 cl)
  have f: "\<forall>q \<in> set (sse_clients ?st). \<not> r q \<and> \<not> r2 q \<longrightarrow>
          queues (snd ?res2) q = queues ?st q @ [sse_message jd e, sse_message jd e2]"
    by (simp add: q2 q1 cl)
  from a b cl c d f show ?thesis by (simp only: Let_def)
qed


theorem failing_subscriber_is_dropped_witness:
  "sse_clients (run timestamp (\<lambda>q. False) [Connect, Connect] init) = [0, 1] \<and>
   sse_clients (snd (notify_clients timestamp (\<lambda>q. q = 0) (sample_event ''t1'')
       (run timestamp (\<lambda>q. False) [Connect, Connect] init))) = [1] \<and>
   queues (snd (notify_clients timestamp (\<lambda>q. False) (sample_event ''t2'')
       (snd (notify_clients timestamp (\<lambda>q. q = 0) (sample_event ''t1'')
          (run timestamp (\<lambda>q. False) [Connect, Connect] init))))) 0 = [] \<and>
   queues (snd (notify_clients timestamp (\<lambda>q. False) (sample_event ''t2'')
       (snd (notify_clients timestamp (\<lambda>q. q = 0) (sample_event ''t1'')
          (run timestamp (\<lambda>q. False) [Connect, Connect] init))))) 1
     = [sse_message timestamp (sample_event ''t1''), sse_message timestamp (sample_event ''t2'')]"
  using failing_subscriber_is_dropped
    [of timestamp "\<lambda>q. False" "[Connect, Connect]" "\<lambda>q. q = 0" "sample_event ''t1''"
        "\<lambda>q. False" "sample_event ''t2''"]
  by (simp add: Let_def subscribe_def init_def)


text \<open>
  Claim C7. A request that reaches \<^verbatim>\<open>catch_all\<close> with a reserved path (the empty path,
  \<^verbatim>\<open>events\<close> or \<^verbatim>\<open>api/requests\<close>) is answered with the notice that the path is
  internal and changes nothing: the history, and so every later result of
  \<^verbatim>\<open>GET /api/requests\<close>, the registry and every queue are as before.
\<close>

theorem reserved_path_leaves_no_trace:
  "p \<in> {'''', ''events'', ''api/requests''} \<Longrightarrow>
   catch_all jd r now req p bs st = (Inr [(''message'', ''This is an internal endpoint'')], st) \<and>
   get_requests (snd (catch_all jd r now req p bs st)) = get_requests st \<and>
   sse_clients (snd (catch_all jd r now req p bs st)) = sse_clients st \<and>
   queues (snd (catch_all jd r now req p bs st)) = queues st"
proof -
  assume "p \<in> {'''', ''events'', ''api/requests''}"
  then have "p \<in> set ['''', ''events'', ''api/requests'']" by simp
  then have "catch_all jd r now req p bs st
      = (Inr [(''message'', ''This is an internal endpoint'')], st)"
    by (rule catch_all_reserved)
  then show ?thesis by simp
qed

theorem reserved_path_leaves_no_trace_witness:
  "''api/requests'' \<in> {'''', ''events'', ''api/requests''} \<and>
   catch_all timestamp (\<lambda>q. False) ''2024-01-01T00:00:00'' (sample_request ''POST'')
       ''api/requests'' [0x7B, 0x7D] (log_events [sample_event ''t1''] init)
     = (Inr [(''message'', ''This is an internal endpoint'')], log_events [sample_event ''t1''] init) \<and>
   get_requests (snd (catch_all timestamp (\<lambda>q. False) ''2024-01-01T00:00:00''
       (sample_request ''POST'') ''api/requests'' [0x7B, 0x7D]
       (log_events [sample_event ''t1''] init))) = [sample_event ''t1'']"
proof -
  have h: "''api/requests'' \<in> {'''', ''events'', ''api/requests''}" by simp
  have g: "get_requests (log_events [sample_event ''t1''] init) = [sample_event ''t1'']"
    by (simp add: get_requests_log_events maxlen_def)
  show ?thesis
    using h g reserved_path_leaves_no_trace [OF h, of timestamp "\<lambda>q. False"
      "''2024-01-01T00:00:00''" "sample_request ''POST''" "[0x7B, 0x7D]"
      "log_events [sample_event ''t1''] init"]
    by simp
qed

text \<open>
  Claim C9. A request with a path that is not reserved is answered with the JSON object
  of the keys \<^verbatim>\<open>status\<close>, \<^verbatim>\<open>message\<close> and \<^verbatim>\<open>timestamp\<close>, and the value of
  \<^verbatim>\<open>timestamp\<close> is the timestamp of the event that this request has just put at the
  front of the history.
\<close>

theorem acknowledgment_carries_recorded_timestamp:
  "p \<notin> {'''', ''events'', ''api/requests''} \<Longrightarrow>
   \<exists>ev. fst (catch_all jd r now req p bs st) =
          Inr [(''status'', ''logged''),
               (''message'', ''Request has been logged successfully''),
               (''timestamp'', timestamp ev)] \<and>
        requests_log (snd (catch_all jd r now req p bs st)) = appendleft ev (requests_log st) \<and>
        hd (get_requests (snd (catch_all jd r now req p bs st))) = ev \<and>
        timestamp ev = now"
proof -
  assume "p \<notin> {'''', ''events'', ''api/requests''}"
  then have np: "p \<notin> set ['''', ''events'', ''api/requests'']" by simp
  obtain t where f: "format_request now req bs =
     Inr \<lparr>timestamp = now, http_method = req_method req, path = req_url_path req,
          query_params = req_query_params req, headers = req_headers req, body = t,
          client = (case req_client req of Some host \<Rightarrow> host | None \<Rightarrow> ''unknown'')\<rparr>"
    using format_request_returns [of now req bs] by blast
  let ?ev = "\<lparr>timestamp = now, http_method = req_method req, path = req_url_path req,
          query_params = req_query_params req, headers = req_headers req, body = t,
          client = (case req_client req of Some host \<Rightarrow> host | None \<Rightarrow> ''unknown'')\<rparr>"
  note c = catch_all_logged [OF np f, of jd r st]
  have "fst (catch_all jd r now req p bs st) =
          Inr [(''status'', ''logged''),
               (''message'', ''Request has been logged successfully''),
               (''timestamp'', timestamp ?ev)]"
    by (simp only: c fst_conv)
  moreover have l: "requests_log (snd (catch_all jd r now req p bs st))
      = appendleft ?ev (requests_log st)"
    by (simp add: c notify_clients_frame)
  moreover have "hd (get_requests (snd (catch_all jd r now req p bs st))) = ?ev"
    by (simp only: get_requests_def l hd_appendleft)
  moreover have "timestamp ?ev = now" by simp
  ultimately show ?thesis by blast
qed


theorem acknowledgment_carries_recorded_timestamp_witness:
  "''hook'' \<notin> {'''', ''events'', ''api/requests''} \<and>
   fst (catch_all timestamp (\<lambda>q. False) ''2024-01-01T00:00:00'' (sample_request ''POST'')
          ''hook'' [0x7B, 0x7D] init)
     = Inr [(''status'', ''logged''),
            (''message'', ''Request has been logged successfully''),
            (''timestamp'', ''2024-01-01T00:00:00'')] \<and>
   timestamp (hd (get_requests (snd (catch_all timestamp (\<lambda>q. False) ''2024-01-01T00:00:00''
          (sample_request ''POST'') ''hook'' [0x7B, 0x7D] init)))) = ''2024-01-01T00:00:00''"
proof -
  have h: "''hook'' \<notin> {'''', ''events'', ''api/requests''}" by simp
  show ?thesis
    using h acknowledgment_carries_recorded_timestamp [OF h, of timestamp "\<lambda>q. False"
      "''2024-01-01T00:00:00''" "sample_request ''POST''" "[0x7B, 0x7D]" init]
    by auto
qed

text \<open>
  Claim C10. The test for a reserved path is equality with one of the three strings:
  a request with any other path, \<^verbatim>\<open>events/x\<close> and \<^verbatim>\<open>api/requests/y\<close> among them, is
  turned into an event, the event is put at the front of the history and its message is
  put into the queue of every registered subscriber whose put does not raise.
\<close>

theorem unreserved_path_is_captured:
  "(p \<notin> {'''', ''events'', ''api/requests''} \<longrightarrow>
      (let st = run jd r0 acts init;
           res = catch_all jd r now req p bs st
       in \<exists>ev. format_request now req bs = Inr ev \<and>
            fst res = Inr [(''status'', ''logged''),
                           (''message'', ''Request has been logged successfully''),
                           (''timestamp'', timestamp ev)] \<and>
            requests_log (snd res) = appendleft ev (requests_log st) \<and>
            sse_clients (snd res) = filter (\<lambda>q. \<not> r q) (sse_clients st) \<and>
            (\<forall>q \<in> set (sse_clients st). \<not> r q \<longrightarrow>
               queues (snd res) q = queues st q @ [sse_message jd ev]))) \<and>
   ''events/x'' \<notin> {'''', ''events'', ''api/requests''} \<and>
   ''api/requests/y'' \<notin> {'''', ''events'', ''api/requests''}"
proof -
  have "\<exists>ev. format_request now req bs = Inr ev \<and>
            fst (catch_all jd r now req p bs (run jd r0 acts init))
              = Inr [(''status'', ''logged''),
                     (''message'', ''Request has been logged successfully''),
                     (''timestamp'', timestamp ev)] \<and>
            requests_log (snd (catch_all jd r now req p bs (run jd r0 acts init)))
              = appendleft ev (requests_log (run jd r0 acts init)) \<and>
            sse_clients (snd (catch_all jd r now req p bs (run jd r0 acts init)))
              = filter (\<lambda>q. \<not> r q) (sse_clients (run jd r0 acts init)) \<and>
            (\<forall>q \<in> set (sse_clients (run jd r0 acts init)). \<not> r q \<longrightarrow>
               queues (snd (catch_all jd r now req p bs (run jd r0 acts init))) q
                 = queues (run jd r0 acts init) q @ [sse_message jd ev])"
    if "p \<notin> {'''', ''events'', ''api/requests''}"
  proof -
    let ?st = "run jd r0 acts init"
    from that have np: "p \<notin> set ['''', ''events'', ''api/requests'']" by simp
    obtain ev where f: "format_request now req bs = Inr ev"
      using format_request_returns [of now req bs] by blast
    let ?st1 = "?st\<lparr>requests_log := appendleft ev (requests_log ?st)\<rparr>"
    note c = catch_all_logged [OF np f, of jd r ?st]
    have ok: "registry_ok ?st1"
      by (simp add: registry_ok_log registry_ok_reachable)
    have a: "fst (catch_all jd r now req p bs ?st)
              = Inr [(''status'', ''logged''),
                     (''message'', ''Request has been logged successfully''),
                     (''timestamp'', timestamp ev)]"
      by (simp only: c fst_conv)
    have b: "requests_log (snd (catch_all jd r now req p bs ?st))
              = appendleft ev (requests_log ?st)"
      by (simp add: c notify_clients_frame)
    have d: "sse_clients (snd (catch_all jd r now req p bs ?st))
              = filter (\<lambda>q. \<not> r q) (sse_clients ?st)"
      by (simp add: c notify_clients_clients)
    have e: "\<forall>q \<in> set (sse_clients ?st). \<not> r q \<longrightarrow>
               queues (snd (catch_all jd r now req p bs ?st)) q
                 = queues ?st q @ [sse_message jd ev]"
      using notify_clients_queues_ok [OF ok, of jd r ev] by (simp add: c)
    from f a b d e show ?thesis by blast
  qed
  then show ?thesis by (simp add: Let_def)
qed

theorem unreserved_path_is_captured_witness:
  "''events/x'' \<notin> {'''', ''events'', ''api/requests''} \<and>
   sse_clients (run timestamp (\<lambda>q. False) [Connect] init) = [0] \<and>
   (\<exists>ev. format_request ''2024-01-01T00:00:00'' (sample_request ''GET'') [] = Inr ev \<and>
      requests_log (snd (catch_all timestamp (\<lambda>q. False) ''2024-01-01T00:00:00''
          (sample_request ''GET'') ''events/x'' [] (run timestamp (\<lambda>q. False) [Connect] init)))
        = [ev] \<and>
      queues (snd (catch_all timestamp (\<lambda>q. False) ''2024-01-01T00:00:00''
          (sample_request ''GET'') ''events/x'' [] (run timestamp (\<lambda>q. False) [Connect] init))) 0
        = [sse_message timestamp ev])"
  using unreserved_path_is_captured [of "''events/x''" timestamp "\<lambda>q. False" "[Connect]"
      "\<lambda>q. False" "''2024-01-01T00:00:00''" "sample_request ''GET''" "[]"]
  by (simp add: Let_def subscribe_def init_def appendleft_def maxlen_def) blast

section \<open>Decoding what the encoder produces, and the place of a replacement\<close>






































section \<open>Removal from the registry\<close>













section \<open>The serving loop of a subscriber\<close>

text \<open>
  The loop of \<^verbatim>\<open>event_generator\<close> on a logical clock. The queue of the subscriber is
  given by the puts that \<^verbatim>\<open>notify_clients\<close> makes to it, each with its time, in the
  order of the puts. \<^verbatim>\<open>asyncio.wait_for(client_queue.get(), timeout=30.0)\<close> started at
  time \<open>now\<close> returns the oldest message at once when it is already there, returns it
  at its arrival when that is before \<open>now + 30\<close>, and raises \<^verbatim>\<open>TimeoutError\<close> at
  \<open>now + 30\<close> otherwise. The client is gone from the time \<open>gone\<close> on, which
  \<^verbatim>\<open>request.is_disconnected()\<close> reports at the start of an iteration. The check and the
  \<^verbatim>\<open>yield\<close> take no time.
\<close>

definition timeout :: nat where
  "timeout = 30"

definition keep_alive :: string where
  "keep_alive = '': keep-alive\<newline>\<newline>''"

datatype waited = Message string | TimeoutError

definition wait_for_get :: "nat \<Rightarrow> (nat \<times> string) list \<Rightarrow> nat \<times> waited \<times> (nat \<times> string) list" where
  "wait_for_get now pending =
     (case pending of
        [] \<Rightarrow> (now + timeout, TimeoutError, [])
      | (t, message) # rest \<Rightarrow>
          if t < now + timeout then (max now t, Message message, rest)
          else (now + timeout, TimeoutError, pending))"

lemma wait_for_get_Message:
  "wait_for_get now pending = (now', Message m, rest) \<Longrightarrow>
   now \<le> now' \<and> now' < now + timeout \<and> (\<exists>t. pending = (t, m) # rest \<and> now' = max now t)"
  by (auto simp: wait_for_get_def timeout_def split: list.splits if_splits)

lemma wait_for_get_Timeout:
  "wait_for_get now pending = (now', TimeoutError, rest) \<Longrightarrow>
   now' = now + timeout \<and> rest = pending \<and>
   (pending = [] \<or> now + timeout \<le> fst (hd pending))"
  by (auto simp: wait_for_get_def split: list.splits if_splits)

function event_loop :: "nat \<Rightarrow> nat \<Rightarrow> (nat \<times> string) list \<Rightarrow> (nat \<times> string) list" where
  "event_loop gone now pending =
     (if gone \<le> now then []
      else
        (case wait_for_get now pending of
           (now', Message message, rest) \<Rightarrow> (now', message) # event_loop gone now' rest
         | (now', TimeoutError, rest) \<Rightarrow> (now', keep_alive) # event_loop gone now' rest))"
  by pat_completeness auto
termination
  apply (relation "measure (\<lambda>(gone, now, pending). (gone - now) + length pending)")
    apply simp_all
  subgoal for gone now pending x y xa ya x1
    using wait_for_get_Message [of now pending x x1 ya] by auto
  subgoal for gone now pending x y xa ya
    using wait_for_get_Timeout [of now pending x ya] by (auto simp: timeout_def)
  done


declare event_loop.simps [simp del]

text \<open>Every yield comes at most \<open>timeout\<close> after the one before it, or after the start.\<close>

fun within_timeout :: "nat \<Rightarrow> (nat \<times> string) list \<Rightarrow> bool" where
  "within_timeout prev [] = True"
| "within_timeout prev ((t, message) # rest) =
     (prev \<le> t \<and> t \<le> prev + timeout \<and> within_timeout t rest)"

lemma event_loop_gone: "gone \<le> now \<Longrightarrow> event_loop gone now pending = []"
  by (subst event_loop.simps) simp

lemma event_loop_Message:
  "\<not> gone \<le> now \<Longrightarrow> wait_for_get now pending = (now', Message m, rest) \<Longrightarrow>
   event_loop gone now pending = (now', m) # event_loop gone now' rest"
  by (subst event_loop.simps) simp

lemma event_loop_Timeout:
  "\<not> gone \<le> now \<Longrightarrow> wait_for_get now pending = (now', TimeoutError, rest) \<Longrightarrow>
   event_loop gone now pending = (now', keep_alive) # event_loop gone now' rest"
  by (subst event_loop.simps) simp

lemma event_loop_cases:
  obtains (gone) "gone \<le> now" "event_loop gone now pending = []"
  | (message) now' m rest where "\<not> gone \<le> now"
      "wait_for_get now pending = (now', Message m, rest)"
      "event_loop gone now pending = (now', m) # event_loop gone now' rest"
  | (timeout) now' rest where "\<not> gone \<le> now"
      "wait_for_get now pending = (now', TimeoutError, rest)"
      "event_loop gone now pending = (now', keep_alive) # event_loop gone now' rest"
proof (cases "gone \<le> now")
  case True
  then show ?thesis using gone event_loop_gone by blast
next
  case False
  obtain now' w rest where w: "wait_for_get now pending = (now', w, rest)"
    by (cases "wait_for_get now pending") auto
  show ?thesis
  proof (cases w)
    case (Message m)
    with False w message event_loop_Message show ?thesis by blast
  next
    case TimeoutError
    with False w timeout event_loop_Timeout show ?thesis by blast
  qed
qed

lemma event_loop_within_timeout: "within_timeout now (event_loop gone now pending)"
proof (induction gone now pending rule: event_loop.induct)
  case (1 gone now pending)
  show ?case
  proof (cases gone now pending rule: event_loop_cases)
    case gone
    then show ?thesis by simp
  next
    case (message now' m rest)
    have "within_timeout now' (event_loop gone now' rest)"
      using "1.IH"(1) [OF message(1) message(2) [symmetric] refl refl] .
    moreover have "now \<le> now'" "now' \<le> now + timeout"
      using wait_for_get_Message [OF message(2)] by simp_all
    ultimately show ?thesis by (simp add: message(3))
  next
    case (timeout now' rest)
    have "within_timeout now' (event_loop gone now' rest)"
      using "1.IH"(2) [OF timeout(1) timeout(2) [symmetric] refl refl] .
    moreover have "now' = now + timeout"
      using wait_for_get_Timeout [OF timeout(2)] by simp
    ultimately show ?thesis by (simp add: timeout(3))
  qed
qed


lemma event_loop_texts:
  "(t, m) \<in> set (event_loop gone now pending) \<Longrightarrow> m = keep_alive \<or> m \<in> snd ` set pending"
proof (induction gone now pending rule: event_loop.induct)
  case (1 gone now pending)
  show ?case
  proof (cases gone now pending rule: event_loop_cases)
    case gone
    with "1.prems" show ?thesis by simp
  next
    case (message now' m' rest)
    note ih = "1.IH"(1) [OF message(1) message(2) [symmetric] refl refl]
    obtain t' where p: "pending = (t', m') # rest"
      using wait_for_get_Message [OF message(2)] by blast
    from "1.prems" message(3) have "(t, m) = (now', m') \<or> (t, m) \<in> set (event_loop gone now' rest)"
      by simp
    then show ?thesis
    proof
      assume "(t, m) = (now', m')"
      then show ?thesis using p by simp
    next
      assume "(t, m) \<in> set (event_loop gone now' rest)"
      from ih [OF this] show ?thesis using p by auto
    qed
  next
    case (timeout now' rest)
    note ih = "1.IH"(2) [OF timeout(1) timeout(2) [symmetric] refl refl]
    have r: "rest = pending"
      using wait_for_get_Timeout [OF timeout(2)] by simp
    from "1.prems" timeout(3) have "(t, m) = (now', keep_alive) \<or> (t, m) \<in> set (event_loop gone now' rest)"
      by simp
    then show ?thesis
    proof
      assume "(t, m) = (now', keep_alive)"
      then show ?thesis by simp
    next
      assume "(t, m) \<in> set (event_loop gone now' rest)"
      from ih [OF this] show ?thesis using r by simp
    qed
  qed
qed

lemma event_loop_order:
  "keep_alive \<notin> snd ` set pending \<Longrightarrow>
   \<exists>k. filter (\<lambda>m. m \<noteq> keep_alive) (map snd (event_loop gone now pending))
         = take k (map snd pending)"
proof (induction gone now pending rule: event_loop.induct)
  case (1 gone now pending)
  show ?case
  proof (cases gone now pending rule: event_loop_cases)
    case gone
    have "filter (\<lambda>m. m \<noteq> keep_alive) (map snd (event_loop gone now pending))
        = take 0 (map snd pending)"
      by (simp add: gone(2))
    then show ?thesis by blast
  next
    case (message now' m' rest)
    obtain t' where p: "pending = (t', m') # rest"
      using wait_for_get_Message [OF message(2)] by blast
    with "1.prems" have ne: "m' \<noteq> keep_alive" and r: "keep_alive \<notin> snd ` set rest"
      by auto
    from "1.IH"(1) [OF message(1) message(2) [symmetric] refl refl r]
    obtain k where "filter (\<lambda>m. m \<noteq> keep_alive) (map snd (event_loop gone now' rest))
        = take k (map snd rest)" by blast
    moreover have "filter (\<lambda>m. m \<noteq> keep_alive) (map snd (event_loop gone now pending))
        = m' # filter (\<lambda>m. m \<noteq> keep_alive) (map snd (event_loop gone now' rest))"
      using ne by (simp add: message(3))
    moreover have "take (Suc k) (map snd pending) = m' # take k (map snd rest)"
      by (simp add: p)
    ultimately have "filter (\<lambda>m. m \<noteq> keep_alive) (map snd (event_loop gone now pending))
        = take (Suc k) (map snd pending)"
      by simp
    then show ?thesis by blast
  next
    case (timeout now' rest)
    have r: "rest = pending"
      using wait_for_get_Timeout [OF timeout(2)] by simp
    from "1.IH"(2) [OF timeout(1) timeout(2) [symmetric] refl refl] "1.prems" r
    obtain k where "filter (\<lambda>m. m \<noteq> keep_alive) (map snd (event_loop gone now' rest))
        = take k (map snd pending)" by blast
    then have "filter (\<lambda>m. m \<noteq> keep_alive) (map snd (event_loop gone now pending))
        = take k (map snd pending)"
      by (simp add: timeout(3))
    then show ?thesis by blast
  qed
qed

lemma event_loop_until_gone:
  "now < gone \<Longrightarrow>
   event_loop gone now pending \<noteq> [] \<and> gone \<le> fst (last (event_loop gone now pending))"
proof (induction gone now pending rule: event_loop.induct)
  case (1 gone now pending)
  show ?case
  proof (cases gone now pending rule: event_loop_cases)
    case gone
    with "1.prems" show ?thesis by simp
  next
    case (message now' m' rest)
    show ?thesis
    proof (cases "gone \<le> now'")
      case True
      then show ?thesis by (simp add: message(3) event_loop_gone)
    next
      case False
      then have "now' < gone" by simp
      from "1.IH"(1) [OF message(1) message(2) [symmetric] refl refl this]
      show ?thesis by (simp add: message(3))
    qed
  next
    case (timeout now' rest)
    show ?thesis
    proof (cases "gone \<le> now'")
      case True
      then show ?thesis by (simp add: timeout(3) event_loop_gone)
    next
      case False
      then have "now' < gone" by simp
      from "1.IH"(2) [OF timeout(1) timeout(2) [symmetric] refl refl this]
      show ?thesis by (simp add: timeout(3))
    qed
  qed
qed

lemma event_loop_idle:
  "now < gone \<Longrightarrow> pending = [] \<or> now + timeout \<le> fst (hd pending) \<Longrightarrow>
   event_loop gone now pending
     = (now + timeout, keep_alive) # event_loop gone (now + timeout) pending"
proof -
  assume a: "now < gone" and b: "pending = [] \<or> now + timeout \<le> fst (hd pending)"
  have "wait_for_get now pending = (now + timeout, TimeoutError, pending)"
    using b by (cases pending) (auto simp: wait_for_get_def)
  with a show ?thesis by (simp add: event_loop_Timeout)
qed


text \<open>
  The loop of a subscriber whose queue receives, from \<^verbatim>\<open>notify_clients\<close>, the message
  of each event of \<open>published\<close> at the time given with it.
\<close>

definition serve :: "(event \<Rightarrow> string) \<Rightarrow> nat \<Rightarrow> nat \<Rightarrow> (nat \<times> event) list \<Rightarrow> (nat \<times> string) list" where
  "serve json_dumps gone start published =
     event_loop gone start
       (map (\<lambda>(t, request_data). (t, sse_message json_dumps request_data)) published)"

lemma sse_message_not_keep_alive: "sse_message jd e \<noteq> keep_alive"
  by (simp add: sse_message_def keep_alive_def)

text \<open>
  Claim C8. Every text the loop yields is either the comment line \<^verbatim>\<open>: keep-alive\<close> with
  two newlines or the message of a published event, \<^verbatim>\<open>data: \<close> followed by the JSON
  text of the event and two newlines; the messages are yielded once each, in the order
  of their publication. A wait of 30 time units during which no message is in the queue
  ends with the keep-alive line at that moment. Hence every yield comes at most 30 time
  units after the one before it (or after the start of the loop), and the loop goes on
  yielding until the client is seen to be gone.
\<close>

theorem sse_framing_and_keep_alive:
  "(\<forall>(t, m) \<in> set (serve jd gone start published).
      m = '': keep-alive\<newline>\<newline>'' \<or>
      (\<exists>e \<in> snd ` set published. m = ''data: '' @ jd e @ ''\<newline>\<newline>'')) \<and>
   (\<exists>k. filter (\<lambda>m. m \<noteq> '': keep-alive\<newline>\<newline>'') (map snd (serve jd gone start published))
          = map (\<lambda>e. ''data: '' @ jd e @ ''\<newline>\<newline>'') (take k (map snd published))) \<and>
   (now < gone \<and> (pending = [] \<or> now + 30 \<le> fst (hd pending)) \<longrightarrow>
      event_loop gone now pending
        = (now + 30, '': keep-alive\<newline>\<newline>'') # event_loop gone (now + 30) pending) \<and>
   within_timeout start (serve jd gone start published) \<and>
   (start < gone \<longrightarrow>
      serve jd gone start published \<noteq> [] \<and>
      gone \<le> fst (last (serve jd gone start published)))"
proof -
  let ?pending = "map (\<lambda>(t, request_data). (t, sse_message jd request_data)) published"
  have snd_pending: "map snd ?pending = map (\<lambda>e. ''data: '' @ jd e @ ''\<newline>\<newline>'') (map snd published)"
    by (simp add: sse_message_def case_prod_unfold)
  have a: "\<forall>(t, m) \<in> set (serve jd gone start published).
      m = '': keep-alive\<newline>\<newline>'' \<or>
      (\<exists>e \<in> snd ` set published. m = ''data: '' @ jd e @ ''\<newline>\<newline>'')"
  proof (clarify)
    fix t m
    assume in_out: "(t, m) \<in> set (serve jd gone start published)"
      and not_data: "\<not> (\<exists>e \<in> snd ` set published. m = ''data: '' @ jd e @ ''\<newline>\<newline>'')"
    from in_out have "m = keep_alive \<or> m \<in> snd ` set ?pending"
      unfolding serve_def by (rule event_loop_texts)
    moreover have "m \<notin> snd ` set ?pending"
      using not_data by (auto simp: sse_message_def)
    ultimately show "m = '': keep-alive\<newline>\<newline>''"
      by (simp add: keep_alive_def)
  qed
  have "keep_alive \<notin> snd ` set ?pending"
    by (auto simp: case_prod_unfold sse_message_def keep_alive_def)
  from event_loop_order [OF this, of gone start]
  obtain k where "filter (\<lambda>m. m \<noteq> keep_alive) (map snd (serve jd gone start published))
      = take k (map snd ?pending)"
    unfolding serve_def by blast
  then have "filter (\<lambda>m. m \<noteq> '': keep-alive\<newline>\<newline>'') (map snd (serve jd gone start published))
      = map (\<lambda>e. ''data: '' @ jd e @ ''\<newline>\<newline>'') (take k (map snd published))"
    by (simp only: snd_pending take_map keep_alive_def)
  then have b: "\<exists>k. filter (\<lambda>m. m \<noteq> '': keep-alive\<newline>\<newline>'') (map snd (serve jd gone start published))
          = map (\<lambda>e. ''data: '' @ jd e @ ''\<newline>\<newline>'') (take k (map snd published))"
    by blast
  have c: "now < gone \<and> (pending = [] \<or> now + 30 \<le> fst (hd pending)) \<longrightarrow>
      event_loop gone now pending
        = (now + 30, '': keep-alive\<newline>\<newline>'') # event_loop gone (now + 30) pending"
    using event_loop_idle [of now gone pending] by (simp add: timeout_def keep_alive_def)
  have d: "within_timeout start (serve jd gone start published)"
    unfolding serve_def by (rule event_loop_within_timeout)
  have e: "start < gone \<longrightarrow>
      serve jd gone start published \<noteq> [] \<and>
      gone \<le> fst (last (serve jd gone start published))"
    unfolding serve_def using event_loop_until_gone by blast
  from a b c d e show ?thesis by blast
qed


lemma sample_serve:
  "serve timestamp 70 0 [(10, sample_event ''t1'')]
     = [(10, sse_message timestamp (sample_event ''t1'')), (40, keep_alive), (70, keep_alive)]"
proof -
  let ?m = "sse_message timestamp (sample_event ''t1'')"
  have w1: "wait_for_get 0 [(10, ?m)] = (10, Message ?m, [])"
    by (simp add: wait_for_get_def timeout_def)
  have w2: "wait_for_get 10 [] = (40, TimeoutError, [])"
    by (simp add: wait_for_get_def timeout_def)
  have w3: "wait_for_get 40 [] = (70, TimeoutError, [])"
    by (simp add: wait_for_get_def timeout_def)
  have "event_loop 70 0 [(10, ?m)] = (10, ?m) # event_loop 70 10 []"
    by (rule event_loop_Message [OF _ w1]) simp
  moreover have "event_loop 70 10 [] = (40, keep_alive) # event_loop 70 40 []"
    by (rule event_loop_Timeout [OF _ w2]) simp
  moreover have "event_loop 70 40 [] = (70, keep_alive) # event_loop 70 70 []"
    by (rule event_loop_Timeout [OF _ w3]) simp
  moreover have "event_loop 70 70 [] = []"
    by (rule event_loop_gone) simp
  ultimately show ?thesis by (simp add: serve_def)
qed

theorem sse_framing_and_keep_alive_witness:
  "(10, ''data: t1\<newline>\<newline>'') \<in> set (serve timestamp 70 0 [(10, sample_event ''t1'')]) \<and>
   (10::nat) < 70 \<and>
   event_loop 70 10 [] = (40, '': keep-alive\<newline>\<newline>'') # event_loop 70 40 [] \<and>
   (0::nat) < 70 \<and>
   70 \<le> fst (last (serve timestamp 70 0 [(10, sample_event ''t1'')])) \<and>
   within_timeout 0 (serve timestamp 70 0 [(10, sample_event ''t1'')])"
  using sse_framing_and_keep_alive [of timestamp 70 0 "[(10, sample_event ''t1'')]" 10 "[]"]
    sample_serve
  by (simp add: sse_message_def sample_event_def)

end
